theory Spec2Isabelle
  imports Main "HOL-Library.Char_ord" "HOL-Library.List_Lexorder"
begin

section \<open>JavaScript primitives used by the highlighter\<close>

text \<open>
  \<^verbatim>\<open>String.prototype.slice(start, end)\<close>: a negative index counts from the end of
  the string, an index beyond the length is cut to the length, and an empty string is
  returned when the resulting start is not below the resulting end. Indices are the
  integers the component stores (\<^verbatim>\<open>start_index\<close>, \<^verbatim>\<open>end_index\<close>).
\<close>

definition js_slice :: "string \<Rightarrow> int \<Rightarrow> int \<Rightarrow> string" where
  "js_slice s from to =
     (let len = int (length s);
          f = (if from < 0 then max (len + from) 0 else min from len);
          t = (if to < 0 then max (len + to) 0 else min to len)
      in if f < t then take (nat (t - f)) (drop (nat f) s) else [])"

text \<open>\<^verbatim>\<open>slice(start)\<close>: an omitted end is the length of the string.\<close>

definition js_slice_from :: "string \<Rightarrow> int \<Rightarrow> string" where
  "js_slice_from s from = js_slice s from (int (length s))"

text \<open>Decimal rendering of an integer, as the template literal \<^verbatim>\<open>`text-${lastIndex}`\<close> needs it.\<close>

definition digit_char :: "nat \<Rightarrow> char" where
  "digit_char d = char_of (48 + d)"

function nat_to_string :: "nat \<Rightarrow> string" where
  "nat_to_string n =
     (if n < 10 then [digit_char n] else nat_to_string (n div 10) @ [digit_char (n mod 10)])"
  by pat_completeness auto
termination
  by (relation "measure (\<lambda>n. n)") auto

declare nat_to_string.simps [simp del]

definition int_to_string :: "int \<Rightarrow> string" where
  "int_to_string i = (if i < 0 then CHR ''-'' # nat_to_string (nat (- i)) else nat_to_string (nat i))"

section \<open>Annotations and display segments\<close>

text \<open>
  An annotation document as the component reads it from the \<^verbatim>\<open>annotations\<close> collection:
  the document id together with the stored fields. \<^verbatim>\<open>deleted_at\<close> is absent on a live
  annotation.
\<close>

record annotation =
  ann_id :: string
  paper_id :: string
  user_id :: string
  tag_id :: string
  text_content :: string
  start_index :: int
  end_index :: int
  created_at :: string
  updated_at :: string
  deleted_at :: "string option"

datatype seg_kind = Text | Highlight

text \<open>The local interface \<^verbatim>\<open>Segment\<close> of \<^verbatim>\<open>renderText\<close>; \<^verbatim>\<open>tagId\<close> is optional.\<close>

record segment =
  seg_text :: string
  seg_type :: seg_kind
  seg_id :: string
  seg_tagId :: "string option"

subsection \<open>renderText\<close>

text \<open>
  The body of \<^verbatim>\<open>sortedAnns.forEach\<close>. The loop state is the pair of \<^verbatim>\<open>lastIndex\<close> and
  \<^verbatim>\<open>segments\<close>; \<^verbatim>\<open>push\<close> appends at the end.
\<close>

definition render_step :: "string \<Rightarrow> annotation \<Rightarrow> int \<times> segment list \<Rightarrow> int \<times> segment list" where
  "render_step text ann st =
     (let lastIndex = fst st;
          segments = snd st;
          segments1 =
            (if start_index ann > lastIndex
             then segments @
                    [\<lparr>seg_text = js_slice text lastIndex (start_index ann),
                      seg_type = Text,
                      seg_id = ''text-'' @ int_to_string lastIndex,
                      seg_tagId = None\<rparr>]
             else segments)
      in if end_index ann > lastIndex
         then (let start' = max (start_index ann) lastIndex;
                   end' = end_index ann
               in (end',
                   segments1 @
                     [\<lparr>seg_text = js_slice text start' end',
                       seg_type = Highlight,
                       seg_id = ann_id ann,
                       seg_tagId = Some (tag_id ann)\<rparr>]))
         else (lastIndex, segments1))"

fun render_loop :: "string \<Rightarrow> annotation list \<Rightarrow> int \<times> segment list \<Rightarrow> int \<times> segment list" where
  "render_loop text [] st = st"
| "render_loop text (ann # anns) st = render_loop text anns (render_step text ann st)"

text \<open>
  \<^verbatim>\<open>renderText\<close> up to the segment list; the JSX it returns maps every segment to one
  \<^verbatim>\<open>span\<close> element holding \<^verbatim>\<open>seg.text\<close>. The sort is the stable sort of the copied array on
  \<^verbatim>\<open>start_index\<close>.
\<close>

definition renderText :: "string \<Rightarrow> annotation list \<Rightarrow> segment list" where
  "renderText text annotations =
     (let sortedAnns = sort_key start_index annotations;
          st = render_loop text sortedAnns (0, []);
          lastIndex = fst st;
          segments = snd st
      in if lastIndex < int (length text)
         then segments @
                [\<lparr>seg_text = js_slice_from text lastIndex,
                  seg_type = Text,
                  seg_id = ''text-'' @ int_to_string lastIndex,
                  seg_tagId = None\<rparr>]
         else segments)"

subsection \<open>Vocabulary for the properties of renderText\<close>

text \<open>Two neighbouring segments that are both plain text, somewhere in the list.\<close>

fun adjacent_text :: "segment list \<Rightarrow> bool" where
  "adjacent_text (x # y # rest) =
     ((seg_type x = Text \<and> seg_type y = Text) \<or> adjacent_text (y # rest))"
| "adjacent_text _ = False"

definition ends_highlighted :: "segment list \<Rightarrow> bool" where
  "ends_highlighted segs = (segs = [] \<or> seg_type (last segs) = Highlight)"

text \<open>Sample annotations for the concrete instances below.\<close>

definition annA :: annotation where
  "annA = \<lparr>ann_id = ''a1'', paper_id = ''p1'', user_id = ''u1'', tag_id = ''tagA'',
     text_content = ''0123456789'', start_index = 0, end_index = 10,
     created_at = ''t0'', updated_at = ''t0'', deleted_at = None\<rparr>"

definition annB :: annotation where
  "annB = \<lparr>ann_id = ''b1'', paper_id = ''p1'', user_id = ''u1'', tag_id = ''tagB'',
     text_content = ''567'', start_index = 5, end_index = 8,
     created_at = ''t1'', updated_at = ''t1'', deleted_at = None\<rparr>"

section \<open>Tag grouping\<close>

text \<open>
  Strings are lists of code units; the model covers the code units below 256.
  \<^verbatim>\<open>toLowerCase\<close> maps the capitals A to Z and the Latin-1 capitals (all of 192 to 222 but the
  multiplication sign 215) to the letter 32 places later, and leaves every other code unit.
\<close>

definition to_lower_char :: "char \<Rightarrow> char" where
  "to_lower_char c =
     (let n = (of_char c :: nat)
      in if (65 \<le> n \<and> n \<le> 90) \<or> (192 \<le> n \<and> n \<le> 222 \<and> n \<noteq> 215)
         then char_of (n + 32) else c)"

definition toLowerCase :: "string \<Rightarrow> string" where
  "toLowerCase s = map to_lower_char s"

text \<open>\<^verbatim>\<open>s.includes(t)\<close>: \<open>t\<close> occurs in \<open>s\<close> as a contiguous substring.\<close>

fun starts_with :: "string \<Rightarrow> string \<Rightarrow> bool" where
  "starts_with s [] = True"
| "starts_with [] (c # t) = False"
| "starts_with (x # s) (c # t) = (x = c \<and> starts_with s t)"

fun str_includes :: "string \<Rightarrow> string \<Rightarrow> bool" where
  "str_includes [] t = (t = [])"
| "str_includes (x # s) t = (starts_with (x # s) t \<or> str_includes s t)"

subsection \<open>levenshteinDistance\<close>

text \<open>
  The array write \<^verbatim>\<open>xs[j] = v\<close>: it overwrites a present element and extends the array by
  one element when \<open>j\<close> is its length. Every write of \<^verbatim>\<open>levenshteinDistance\<close> is of one of
  these two kinds: rows are created in increasing order of \<open>i\<close> and filled from left to
  right.
\<close>

definition array_set :: "'a list \<Rightarrow> nat \<Rightarrow> 'a \<Rightarrow> 'a list" where
  "array_set xs j v = (if j < length xs then xs[j := v] else xs @ [v])"

text \<open>\<^verbatim>\<open>for (let i = 0; i <= b.length; i++) matrix[i] = [i]\<close>, with \<open>n\<close> for \<^verbatim>\<open>b.length\<close>.\<close>

function init_rows :: "nat \<Rightarrow> nat \<Rightarrow> nat list list \<Rightarrow> nat list list" where
  "init_rows n i matrix =
     (if i \<le> n then init_rows n (Suc i) (array_set matrix i [i]) else matrix)"
  by pat_completeness auto
termination
  by (relation "measure (\<lambda>(n, i, matrix). Suc n - i)") auto

text \<open>\<^verbatim>\<open>for (let j = 0; j <= a.length; j++) matrix[0][j] = j\<close>, with \<open>n\<close> for \<^verbatim>\<open>a.length\<close>.\<close>

function init_cols :: "nat \<Rightarrow> nat \<Rightarrow> nat list list \<Rightarrow> nat list list" where
  "init_cols n j matrix =
     (if j \<le> n then init_cols n (Suc j) (matrix[0 := array_set (matrix ! 0) j j]) else matrix)"
  by pat_completeness auto
termination
  by (relation "measure (\<lambda>(n, j, matrix). Suc n - j)") auto

text \<open>
  The value written to \<^verbatim>\<open>matrix[i][j]\<close> in the body of the nested loops: the diagonal
  neighbour when the characters agree, otherwise one more than the least of the diagonal
  (substitution), left (insertion) and upper (deletion) neighbours.
\<close>

definition lev_cell :: "'a list \<Rightarrow> 'a list \<Rightarrow> nat list list \<Rightarrow> nat \<Rightarrow> nat \<Rightarrow> nat" where
  "lev_cell a b matrix i j =
     (if b ! (i - 1) = a ! (j - 1)
      then matrix ! (i - 1) ! (j - 1)
      else min (matrix ! (i - 1) ! (j - 1) + 1)
               (min (matrix ! i ! (j - 1) + 1)
                    (matrix ! (i - 1) ! j + 1)))"

text \<open>The loop over \<open>j\<close> for a fixed row \<open>i\<close>, and the loop over \<open>i\<close> around it.\<close>

function inner_loop :: "'a list \<Rightarrow> 'a list \<Rightarrow> nat \<Rightarrow> nat \<Rightarrow> nat list list \<Rightarrow> nat list list" where
  "inner_loop a b i j matrix =
     (if j \<le> length a
      then inner_loop a b i (Suc j) (matrix[i := array_set (matrix ! i) j (lev_cell a b matrix i j)])
      else matrix)"
  by pat_completeness auto
termination
  by (relation "measure (\<lambda>(a, b, i, j, matrix). Suc (length a) - j)") auto

function outer_loop :: "'a list \<Rightarrow> 'a list \<Rightarrow> nat \<Rightarrow> nat list list \<Rightarrow> nat list list" where
  "outer_loop a b i matrix =
     (if i \<le> length b
      then outer_loop a b (Suc i) (inner_loop a b i 1 matrix)
      else matrix)"
  by pat_completeness auto
termination
  by (relation "measure (\<lambda>(a, b, i, matrix). Suc (length b) - i)") auto

declare init_rows.simps [simp del] init_cols.simps [simp del]
  inner_loop.simps [simp del] outer_loop.simps [simp del]

definition levenshteinDistance :: "'a list \<Rightarrow> 'a list \<Rightarrow> nat" where
  "levenshteinDistance a b =
     (let matrix0 = init_rows (length b) 0 [];
          matrix1 = init_cols (length a) 0 matrix0;
          matrix2 = outer_loop a b 1 matrix1
      in matrix2 ! length b ! length a)"

subsection \<open>areTagsSimilar and groupTags\<close>

definition areTagsSimilar :: "string \<Rightarrow> string \<Rightarrow> int \<Rightarrow> bool" where
  "areTagsSimilar s1 s2 threshold =
     (if toLowerCase s1 = toLowerCase s2 then True
      else if str_includes (toLowerCase s1) (toLowerCase s2) \<or> str_includes (toLowerCase s2) (toLowerCase s1)
      then True
      else int (levenshteinDistance (toLowerCase s1) (toLowerCase s2)) \<le> threshold)"

text \<open>The interface \<^verbatim>\<open>TagGroup\<close>.\<close>

record tag_group =
  name :: string
  tags :: "string list"

text \<open>
  The inner loop \<^verbatim>\<open>for (const otherTag of sortedTags)\<close>; its state is the group under
  construction and the \<^verbatim>\<open>visited\<close> set.
\<close>

fun group_inner :: "string \<Rightarrow> int \<Rightarrow> string list \<Rightarrow> tag_group \<times> string set \<Rightarrow> tag_group \<times> string set" where
  "group_inner tag threshold [] st = st"
| "group_inner tag threshold (otherTag # rest) (currentGroup, visited) =
     (if otherTag \<in> visited then group_inner tag threshold rest (currentGroup, visited)
      else if areTagsSimilar tag otherTag threshold
      then group_inner tag threshold rest
             (currentGroup\<lparr>tags := tags currentGroup @ [otherTag]\<rparr>, insert otherTag visited)
      else group_inner tag threshold rest (currentGroup, visited))"

text \<open>
  The outer loop \<^verbatim>\<open>for (const tag of sortedTags)\<close>; its state is \<^verbatim>\<open>groups\<close> and
  \<^verbatim>\<open>visited\<close>.
\<close>

fun group_outer :: "string list \<Rightarrow> int \<Rightarrow> string list \<Rightarrow> tag_group list \<times> string set \<Rightarrow> tag_group list \<times> string set" where
  "group_outer sortedTags threshold [] st = st"
| "group_outer sortedTags threshold (tag # rest) (groups, visited) =
     (if tag \<in> visited then group_outer sortedTags threshold rest (groups, visited)
      else (let currentGroup = \<lparr>name = tag, tags = [tag]\<rparr>;
                visited1 = insert tag visited;
                (currentGroup2, visited2) = group_inner tag threshold sortedTags (currentGroup, visited1)
            in group_outer sortedTags threshold rest (groups @ [currentGroup2], visited2)))"

text \<open>
  \<^verbatim>\<open>[...tags].sort()\<close> orders strings by their code units, a proper prefix first, which is
  the lexicographic order on \<open>string\<close>.
\<close>

definition groupTags :: "string list \<Rightarrow> int \<Rightarrow> tag_group list" where
  "groupTags tgs threshold =
     (let sortedTags = sort tgs
      in fst (group_outer sortedTags threshold sortedTags ([], {})))"

subsection \<open>The edit distance of the specification\<close>

text \<open>
  One edit: a single character is inserted, deleted, or replaced by a different one, at any
  position of the string.
\<close>

inductive edit1 :: "'a list \<Rightarrow> 'a list \<Rightarrow> bool" where
  insert_char: "edit1 (p @ s) (p @ c # s)"
| delete_char: "edit1 (p @ c # s) (p @ s)"
| substitute_char: "c \<noteq> d \<Longrightarrow> edit1 (p @ c # s) (p @ d # s)"

text \<open>
  The Levenshtein distance as the specification words it: the least number of unit-cost
  single-character edits that turn \<open>a\<close> into \<open>b\<close>.
\<close>

definition edit_distance :: "'a list \<Rightarrow> 'a list \<Rightarrow> nat" where
  "edit_distance a b = (LEAST n. (edit1 ^^ n) a b)"

text \<open>
  Two auxiliary functions for the proofs: the recurrence of the edit distance on lists, and
  the recurrence that the nested loops follow on the prefixes of length \<open>j\<close> of \<open>a\<close> and
  \<open>i\<close> of \<open>b\<close>.
\<close>

fun lev_min :: "'a list \<Rightarrow> 'a list \<Rightarrow> nat" where
  "lev_min [] ys = length ys"
| "lev_min (x # xs) [] = Suc (length xs)"
| "lev_min (x # xs) (y # ys) =
     min (lev_min xs ys + (if x = y then 0 else 1))
         (min (lev_min (x # xs) ys + 1) (lev_min xs (y # ys) + 1))"

fun dist_tab :: "'a list \<Rightarrow> 'a list \<Rightarrow> nat \<Rightarrow> nat \<Rightarrow> nat" where
  "dist_tab a b 0 j = j"
| "dist_tab a b (Suc i) 0 = Suc i"
| "dist_tab a b (Suc i) (Suc j) =
     (if b ! i = a ! j then dist_tab a b i j
      else min (dist_tab a b i j + 1)
               (min (dist_tab a b (Suc i) j + 1) (dist_tab a b i (Suc j) + 1)))"

text \<open>
  The state of the matrix while the loops run: the rows before \<open>i\<close> are complete, row
  \<open>i\<close> holds its first \<open>j\<close> cells, the later rows hold their first cell, and every cell
  present has the value of the recurrence.
\<close>

definition filled :: "'a list \<Rightarrow> 'a list \<Rightarrow> nat list list \<Rightarrow> nat \<Rightarrow> nat \<Rightarrow> bool" where
  "filled a b matrix i j =
     (length matrix = Suc (length b) \<and>
      (\<forall>r \<le> length b.
         length (matrix ! r) = (if r < i then Suc (length a) else if r = i then j else 1) \<and>
         (\<forall>c < length (matrix ! r). matrix ! r ! c = dist_tab a b r c)))"

section \<open>The highlighter component\<close>

subsection \<open>getAbsoluteOffset\<close>




subsection \<open>What the browser guarantees of the rendered view and of a selection\<close>




subsection \<open>The resolver as the component meets it\<close>



subsection \<open>Component state and the annotation collection\<close>

text \<open>A string that may be absent is falsy when it is absent or empty.\<close>

definition falsy :: "string option \<Rightarrow> bool" where
  "falsy v = (v = None \<or> v = Some [])"

text \<open>The pending selection \<^verbatim>\<open>{ start, end, text }\<close>.\<close>

record selection_range =
  sel_start :: int
  sel_end :: int
  sel_text :: string

text \<open>
  What \<^verbatim>\<open>handleMouseUp\<close> reads from \<^verbatim>\<open>window.getSelection()\<close> and its first range.
  \<open>withinContainer\<close> says that the container exists and contains the range's common
  ancestor; \<open>selectedText\<close> is \<^verbatim>\<open>selectionObj.toString()\<close>. The record admits more than
  a live range: \<open>valid_range\<close> below states what the DOM keeps of one.
\<close>

record dom_range =
  rangeCount :: nat
  isCollapsed :: bool
  withinContainer :: bool
  startContainer :: nat
  startOffset :: int
  endContainer :: nat
  endOffset :: int
  selectedText :: string


text \<open>
  The state that the handlers read and write: the \<^verbatim>\<open>annotations\<close> collection of the
  document store, the props, and the React state. Popover and menu positions are screen
  coordinates and are left out.
\<close>

record highlighter =
  db_annotations :: "annotation list"
  paperId :: string
  effectiveUserId :: "string option"
  readOnly :: bool
  isEditing :: bool
  selection :: "selection_range option"
  popoverOpen :: bool
  editMenuOpen :: bool
  selectedAnnotation :: "annotation option"

text \<open>
  The document store. \<^verbatim>\<open>addDoc\<close> adds a document under a new id, which the caller of the
  model supplies. \<^verbatim>\<open>updateDoc\<close> writes the given fields into the document with the given
  id and is rejected when there is no such document; the rejection leaves the handler
  through its \<^verbatim>\<open>await\<close>.
\<close>

datatype store_error = NotFound


definition updateDoc ::
  "annotation list \<Rightarrow> string \<Rightarrow> (annotation \<Rightarrow> annotation) \<Rightarrow> store_error + annotation list" where
  "updateDoc coll docId upd =
     (if docId \<in> ann_id ` set coll
      then Inr (map (\<lambda>d. if ann_id d = docId then upd d else d) coll)
      else Inl NotFound)"

text \<open>
  The snapshot listener: the documents of this paper and user whose \<^verbatim>\<open>deleted_at\<close> is
  falsy. This is the component's \<^verbatim>\<open>annotations\<close> state, the input of \<open>renderText\<close>.
\<close>

definition liveAnnotations :: "highlighter \<Rightarrow> annotation list" where
  "liveAnnotations st =
     (if falsy (effectiveUserId st) then []
      else filter (\<lambda>ann. falsy (deleted_at ann))
             (filter (\<lambda>d. paper_id d = paperId st \<and> Some (user_id d) = effectiveUserId st)
                (db_annotations st)))"

subsection \<open>The handlers\<close>





definition handleDeleteAnnotation :: "highlighter \<Rightarrow> string \<Rightarrow> string \<Rightarrow> store_error + highlighter" where
  "handleDeleteAnnotation st annotationId now =
     (if isEditing st \<or> readOnly st then Inr st
      else case updateDoc (db_annotations st) annotationId (\<lambda>d. d\<lparr>deleted_at := Some now\<rparr>) of
        Inl e \<Rightarrow> Inl e
      | Inr coll \<Rightarrow>
          Inr (st\<lparr>db_annotations := coll, editMenuOpen := False, selectedAnnotation := None\<rparr>))"

definition handleChangeTag ::
  "highlighter \<Rightarrow> string \<Rightarrow> string \<Rightarrow> string \<Rightarrow> store_error + highlighter" where
  "handleChangeTag st annotationId newTagId now =
     (if isEditing st \<or> readOnly st then Inr st
      else case updateDoc (db_annotations st) annotationId
                  (\<lambda>d. d\<lparr>tag_id := newTagId, updated_at := now\<rparr>) of
        Inl e \<Rightarrow> Inl e
      | Inr coll \<Rightarrow>
          Inr (st\<lparr>db_annotations := coll, editMenuOpen := False, selectedAnnotation := None\<rparr>))"



definition st_empty :: highlighter where
  "st_empty = \<lparr>db_annotations = [], paperId = ''p1'', effectiveUserId = Some ''u1'',
     readOnly = False, isEditing = False, selection = None, popoverOpen = False,
     editMenuOpen = False, selectedAnnotation = None\<rparr>"

definition st_two :: highlighter where
  "st_two = st_empty\<lparr>db_annotations := [annA, annB]\<rparr>"

definition st_deleted :: highlighter where
  "st_deleted = st_empty\<lparr>db_annotations := [annA\<lparr>deleted_at := Some ''t5''\<rparr>]\<rparr>"

definition range_ok :: dom_range where
  "range_ok = \<lparr>rangeCount = 1, isCollapsed = False, withinContainer = True,
     startContainer = 0, startOffset = 1, endContainer = 1, endOffset = 1,
     selectedText = ''bcd''\<rparr>"



section \<open>Properties of renderText\<close>

lemma take_js_slice:
  assumes "0 \<le> a" and "a \<le> b"
  shows "take (nat a) s @ js_slice s a b = take (nat b) s"
proof -
  let ?len = "int (length s)"
  let ?f = "min a ?len" and ?t = "min b ?len"
  have ft: "0 \<le> ?f" "?f \<le> ?t" using assms by auto
  have sl: "js_slice s a b = take (nat (?t - ?f)) (drop (nat ?f) s)"
    using assms ft by (auto simp: js_slice_def Let_def)
  have "take (nat ?f) s @ take (nat (?t - ?f)) (drop (nat ?f) s) = take (nat ?f + nat (?t - ?f)) s"
    by (simp add: take_add)
  moreover have "nat ?f + nat (?t - ?f) = nat ?t" using ft by linarith
  moreover have "take (nat ?f) s = take (nat a) s" using assms by (simp add: min_def)
  moreover have "take (nat ?t) s = take (nat b) s" using assms by (simp add: min_def)
  ultimately show ?thesis using sl by simp
qed

subsection \<open>The segments cover the text\<close>

lemma render_step_inv:
  assumes "start_index ann \<le> end_index ann"
    and "0 \<le> fst st"
    and "concat (map seg_text (snd st)) = take (nat (fst st)) text"
  shows "0 \<le> fst (render_step text ann st)
       \<and> concat (map seg_text (snd (render_step text ann st)))
           = take (nat (fst (render_step text ann st))) text"
proof (cases "start_index ann > fst st")
  case True
  have "take (nat (fst st)) text @ js_slice text (fst st) (start_index ann)
          = take (nat (start_index ann)) text"
    using assms(2) True by (intro take_js_slice) auto
  moreover have "take (nat (start_index ann)) text @ js_slice text (start_index ann) (end_index ann)
          = take (nat (end_index ann)) text"
    using assms(1,2) True by (intro take_js_slice) auto
  ultimately have "take (nat (fst st)) text @ js_slice text (fst st) (start_index ann)
          @ js_slice text (start_index ann) (end_index ann) = take (nat (end_index ann)) text"
    by (metis append_assoc)
  then show ?thesis
    using True assms by (simp add: render_step_def Let_def max_def)
next
  case False
  show ?thesis
  proof (cases "end_index ann > fst st")
    case True
    have "take (nat (fst st)) text @ js_slice text (fst st) (end_index ann)
          = take (nat (end_index ann)) text"
      using assms(2) True by (intro take_js_slice) auto
    then show ?thesis
      using True False assms by (simp add: render_step_def Let_def max_def)
  next
    case F2: False
    then show ?thesis
      using False assms by (simp add: render_step_def Let_def)
  qed
qed

lemma render_loop_inv:
  assumes "\<forall>ann \<in> set anns. start_index ann \<le> end_index ann"
    and "0 \<le> fst st"
    and "concat (map seg_text (snd st)) = take (nat (fst st)) text"
  shows "0 \<le> fst (render_loop text anns st)
       \<and> concat (map seg_text (snd (render_loop text anns st)))
           = take (nat (fst (render_loop text anns st))) text"
  using assms
proof (induction anns arbitrary: st)
  case Nil
  then show ?case by simp
next
  case (Cons ann anns)
  have "start_index ann \<le> end_index ann" using Cons.prems(1) by simp
  then have "0 \<le> fst (render_step text ann st)
       \<and> concat (map seg_text (snd (render_step text ann st)))
           = take (nat (fst (render_step text ann st))) text"
    using Cons.prems(2,3) by (rule render_step_inv)
  then show ?case using Cons.IH[of "render_step text ann st"] Cons.prems(1) by simp
qed

lemma nat_to_string_10: "nat_to_string 10 = ''10''"
  by code_simp

lemma js_slice_0: "0 \<le> b \<Longrightarrow> js_slice s 0 b = take (nat b) s"
  by (auto simp: js_slice_def Let_def min_def)

lemma js_slice_from_drop: "0 \<le> a \<Longrightarrow> js_slice_from s a = drop (nat a) s"
  by (auto simp: js_slice_from_def js_slice_def Let_def min_def)

lemma renderText_concat:
  assumes "\<forall>ann \<in> set annotations. start_index ann \<le> end_index ann"
  shows "concat (map seg_text (renderText text annotations)) = text"
proof -
  let ?st = "render_loop text (sort_key start_index annotations) (0, [])"
  have "\<forall>ann \<in> set (sort_key start_index annotations). start_index ann \<le> end_index ann"
    using assms by simp
  then have inv: "0 \<le> fst ?st" "concat (map seg_text (snd ?st)) = take (nat (fst ?st)) text"
    using render_loop_inv[of "sort_key start_index annotations" "(0, [])" "text"] by simp_all
  show ?thesis
  proof (cases "fst ?st < int (length text)")
    case True
    then show ?thesis using inv by (simp add: renderText_def Let_def js_slice_from_drop)
  next
    case False
    then have "take (nat (fst ?st)) text = text" by simp
    then show ?thesis using inv False by (simp add: renderText_def Let_def)
  qed
qed

subsection \<open>Plain runs are maximal\<close>

lemma adjacent_text_snoc:
  "adjacent_text (xs @ [y]) =
     (adjacent_text xs \<or> (xs \<noteq> [] \<and> seg_type (last xs) = Text \<and> seg_type y = Text))"
  by (induction xs rule: adjacent_text.induct) auto

lemma adjacent_text_nth:
  "adjacent_text xs =
     (\<exists>i. Suc i < length xs \<and> seg_type (xs ! i) = Text \<and> seg_type (xs ! Suc i) = Text)"
proof (induction xs rule: adjacent_text.induct)
  case (1 x y rest)
  show ?case
  proof
    assume "adjacent_text (x # y # rest)"
    then consider "seg_type x = Text \<and> seg_type y = Text" | "adjacent_text (y # rest)" by auto
    then show "\<exists>i. Suc i < length (x # y # rest) \<and> seg_type ((x # y # rest) ! i) = Text
                 \<and> seg_type ((x # y # rest) ! Suc i) = Text"
    proof cases
      case 1
      then show ?thesis by (intro exI[of _ 0]) simp
    next
      case 2
      then obtain i where "Suc i < length (y # rest)" "seg_type ((y # rest) ! i) = Text"
        "seg_type ((y # rest) ! Suc i) = Text" using "1.IH" by blast
      then show ?thesis by (intro exI[of _ "Suc i"]) simp
    qed
  next
    assume "\<exists>i. Suc i < length (x # y # rest) \<and> seg_type ((x # y # rest) ! i) = Text
                 \<and> seg_type ((x # y # rest) ! Suc i) = Text"
    then obtain i where i: "Suc i < length (x # y # rest)" "seg_type ((x # y # rest) ! i) = Text"
        "seg_type ((x # y # rest) ! Suc i) = Text" by blast
    show "adjacent_text (x # y # rest)"
    proof (cases i)
      case 0
      then show ?thesis using i by simp
    next
      case (Suc j)
      then have "Suc j < length (y # rest)" "seg_type ((y # rest) ! j) = Text"
        "seg_type ((y # rest) ! Suc j) = Text" using i by simp_all
      then have "adjacent_text (y # rest)" using "1.IH" by blast
      then show ?thesis by simp
    qed
  qed
qed simp_all

lemma render_step_plain:
  assumes "start_index ann \<le> end_index ann"
    and "ends_highlighted (snd st)" and "\<not> adjacent_text (snd st)"
  shows "ends_highlighted (snd (render_step text ann st))
       \<and> \<not> adjacent_text (snd (render_step text ann st))"
  using assms
  by (auto simp: render_step_def Let_def ends_highlighted_def adjacent_text_snoc)

lemma render_loop_plain:
  assumes "\<forall>ann \<in> set anns. start_index ann \<le> end_index ann"
    and "ends_highlighted (snd st)" and "\<not> adjacent_text (snd st)"
  shows "ends_highlighted (snd (render_loop text anns st))
       \<and> \<not> adjacent_text (snd (render_loop text anns st))"
  using assms
proof (induction anns arbitrary: st)
  case Nil
  then show ?case by simp
next
  case (Cons ann anns)
  have "start_index ann \<le> end_index ann" using Cons.prems(1) by simp
  then have "ends_highlighted (snd (render_step text ann st))
       \<and> \<not> adjacent_text (snd (render_step text ann st))"
    using Cons.prems(2,3) by (rule render_step_plain)
  then show ?case using Cons.IH[of "render_step text ann st"] Cons.prems(1) by simp
qed

lemma renderText_no_adjacent_text:
  assumes "\<forall>ann \<in> set annotations. start_index ann \<le> end_index ann"
  shows "\<not> adjacent_text (renderText text annotations)"
proof -
  let ?st = "render_loop text (sort_key start_index annotations) (0, [])"
  have "\<forall>ann \<in> set (sort_key start_index annotations). start_index ann \<le> end_index ann"
    using assms by simp
  then have "ends_highlighted (snd ?st) \<and> \<not> adjacent_text (snd ?st)"
    by (rule render_loop_plain) (simp_all add: ends_highlighted_def)
  then show ?thesis
    by (auto simp: renderText_def Let_def adjacent_text_snoc ends_highlighted_def)
qed

subsection \<open>The claims about renderText\<close>

text \<open>
  C1. For every text and every list of live annotations in which each annotation satisfies
  \<open>0 \<le> start_index < end_index \<le> length text\<close>, the texts of the segments that
  \<open>renderText\<close> produces, concatenated in order, are exactly the text.
\<close>

theorem renderText_roundtrip:
  assumes "\<forall>ann \<in> set annotations.
             0 \<le> start_index ann \<and> start_index ann < end_index ann
             \<and> end_index ann \<le> int (length text)"
  shows "concat (map seg_text (renderText text annotations)) = text"
proof -
  have "\<forall>ann \<in> set annotations. start_index ann \<le> end_index ann"
    using assms by auto
  then show ?thesis by (rule renderText_concat)
qed

theorem renderText_roundtrip_witness:
  "0 \<le> start_index annB \<and> start_index annB < end_index annB
   \<and> end_index annB \<le> int (length ''0123456789abc'')
   \<and> 0 \<le> start_index annA \<and> start_index annA < end_index annA
   \<and> end_index annA \<le> int (length ''0123456789abc'')
   \<and> concat (map seg_text (renderText ''0123456789abc'' [annB, annA])) = ''0123456789abc''"
  using renderText_roundtrip [of "[annB, annA]" "''0123456789abc''"]
  by (simp add: annA_def annB_def)

text \<open>
  C2. For the two annotations \<open>[0, 10)\<close> with tag A and \<open>[5, 8)\<close> with tag B, in this
  order, \<open>renderText\<close> yields one highlighted segment, the first ten characters under the
  first annotation's id and tag, and nothing for the nested second annotation. The only
  other segment is the plain rest of a text longer than ten characters.
\<close>

theorem renderText_nested:
  assumes "start_index a = 0" and "end_index a = 10"
    and "start_index b = 5" and "end_index b = 8"
  shows "renderText text [a, b] =
           \<lparr>seg_text = take 10 text, seg_type = Highlight,
             seg_id = ann_id a, seg_tagId = Some (tag_id a)\<rparr>
           # (if 10 < length text
              then [\<lparr>seg_text = drop 10 text, seg_type = Text,
                      seg_id = ''text-10'', seg_tagId = None\<rparr>]
              else [])"
  using assms
  by (simp add: renderText_def render_step_def Let_def js_slice_0 js_slice_from_drop
      int_to_string_def nat_to_string_10)

theorem renderText_nested_witness:
  "start_index annA = 0 \<and> end_index annA = 10 \<and> start_index annB = 5 \<and> end_index annB = 8
   \<and> renderText ''0123456789'' [annA, annB] =
       [\<lparr>seg_text = ''0123456789'', seg_type = Highlight,
          seg_id = ''a1'', seg_tagId = Some ''tagA''\<rparr>]"
  using renderText_nested [of annA annB "''0123456789''"]
  by (simp add: annA_def annB_def)

text \<open>
  C6. For every text and every list of annotations in which each annotation satisfies
  \<open>0 \<le> start_index < end_index \<le> length text\<close>, no two neighbouring segments of
  \<open>renderText\<close>'s output are both plain text.
\<close>

theorem renderText_plain_maximal:
  assumes "\<forall>ann \<in> set annotations.
             0 \<le> start_index ann \<and> start_index ann < end_index ann
             \<and> end_index ann \<le> int (length text)"
    and "Suc i < length (renderText text annotations)"
  shows "\<not> (seg_type (renderText text annotations ! i) = Text
           \<and> seg_type (renderText text annotations ! Suc i) = Text)"
proof -
  have "\<forall>ann \<in> set annotations. start_index ann \<le> end_index ann"
    using assms(1) by auto
  then have "\<not> adjacent_text (renderText text annotations)"
    by (rule renderText_no_adjacent_text)
  then show ?thesis
    using assms(2) unfolding adjacent_text_nth by blast
qed

theorem renderText_plain_maximal_witness:
  "0 \<le> start_index annB \<and> start_index annB < end_index annB
   \<and> end_index annB \<le> int (length ''0123456789abc'')
   \<and> 0 \<le> start_index annA \<and> start_index annA < end_index annA
   \<and> end_index annA \<le> int (length ''0123456789abc'')
   \<and> Suc 0 < length (renderText ''0123456789abc'' [annB, annA])
   \<and> \<not> (seg_type (renderText ''0123456789abc'' [annB, annA] ! 0) = Text
         \<and> seg_type (renderText ''0123456789abc'' [annB, annA] ! Suc 0) = Text)"
proof -
  have len: "Suc 0 < length (renderText ''0123456789abc'' [annB, annA])"
    by (simp add: renderText_def render_step_def Let_def annA_def annB_def)
  have valid: "\<forall>ann \<in> set [annB, annA].
      0 \<le> start_index ann \<and> start_index ann < end_index ann
      \<and> end_index ann \<le> int (length ''0123456789abc'')"
    by (simp add: annA_def annB_def)
  show ?thesis
    using renderText_plain_maximal [OF valid len] len
    by (simp add: annA_def annB_def)
qed

text \<open>
  C10. \<open>renderText\<close> is a total function, and its segments concatenate to the text for
  every text and every annotation list in which each annotation has
  \<open>start_index \<le> end_index\<close>, also when an \<open>end_index\<close> lies beyond the text or a
  \<open>start_index\<close> is negative: \<open>slice\<close> cuts indices beyond the length, and no negative
  index is ever passed to it.
\<close>

theorem renderText_roundtrip_unbounded:
  assumes "\<forall>ann \<in> set annotations. start_index ann \<le> end_index ann"
  shows "concat (map seg_text (renderText text annotations)) = text"
  using assms by (rule renderText_concat)

theorem renderText_roundtrip_unbounded_witness:
  "start_index (annA\<lparr>start_index := 2, end_index := 10\<rparr>)
     \<le> end_index (annA\<lparr>start_index := 2, end_index := 10\<rparr>)
   \<and> int (length ''abc'') < end_index (annA\<lparr>start_index := 2, end_index := 10\<rparr>)
   \<and> start_index (annB\<lparr>start_index := - 2, end_index := 1\<rparr>)
     \<le> end_index (annB\<lparr>start_index := - 2, end_index := 1\<rparr>)
   \<and> start_index (annB\<lparr>start_index := - 2, end_index := 1\<rparr>) < 0
   \<and> concat (map seg_text
        (renderText ''abc'' [annA\<lparr>start_index := 2, end_index := 10\<rparr>,
                             annB\<lparr>start_index := - 2, end_index := 1\<rparr>])) = ''abc''"
  using renderText_roundtrip_unbounded
    [of "[annA\<lparr>start_index := 2, end_index := 10\<rparr>, annB\<lparr>start_index := - 2, end_index := 1\<rparr>]" "''abc''"]
  by (simp add: annA_def annB_def)

section \<open>Properties of the tag grouping\<close>

subsection \<open>Edit steps\<close>

lemma edit1_Cons: "edit1 x y \<Longrightarrow> edit1 (c # x) (c # y)"
proof (induction rule: edit1.induct)
  case (insert_char p s d)
  show ?case using edit1.insert_char[of "c # p" s d] by simp
next
  case (delete_char p d s)
  show ?case using edit1.delete_char[of "c # p" d s] by simp
next
  case (substitute_char e d p s)
  show ?case using edit1.substitute_char[OF substitute_char, of "c # p" s] by simp
qed

lemma edit1_sym: "edit1 x y \<Longrightarrow> edit1 y x"
proof (induction rule: edit1.induct)
  case (insert_char p s c)
  show ?case by (rule edit1.delete_char)
next
  case (delete_char p c s)
  show ?case by (rule edit1.insert_char)
next
  case (substitute_char c d p s)
  then have "d \<noteq> c" by simp
  then show ?case by (rule edit1.substitute_char)
qed

lemma edit1_rev: "edit1 x y \<Longrightarrow> edit1 (rev x) (rev y)"
proof (induction rule: edit1.induct)
  case (insert_char p s c)
  show ?case using edit1.insert_char[of "rev s" "rev p" c] by simp
next
  case (delete_char p c s)
  show ?case using edit1.delete_char[of "rev s" c "rev p"] by simp
next
  case (substitute_char c d p s)
  show ?case using edit1.substitute_char[OF substitute_char, of "rev s" "rev p"] by simp
qed

lemma edits_Cons: "(edit1 ^^ n) x y \<Longrightarrow> (edit1 ^^ n) (c # x) (c # y)"
proof (induction n arbitrary: y)
  case 0
  then show ?case by simp
next
  case (Suc n)
  from Suc.prems obtain z where z: "(edit1 ^^ n) x z" "edit1 z y"
    by (rule relpowp_Suc_E)
  have "(edit1 ^^ n) (c # x) (c # z)" using z(1) by (rule Suc.IH)
  moreover have "edit1 (c # z) (c # y)" using z(2) by (rule edit1_Cons)
  ultimately show ?case by (rule relpowp_Suc_I)
qed

lemma edits_rev: "(edit1 ^^ n) x y \<Longrightarrow> (edit1 ^^ n) (rev x) (rev y)"
proof (induction n arbitrary: y)
  case 0
  then show ?case by simp
next
  case (Suc n)
  from Suc.prems obtain z where z: "(edit1 ^^ n) x z" "edit1 z y"
    by (rule relpowp_Suc_E)
  have "(edit1 ^^ n) (rev x) (rev z)" using z(1) by (rule Suc.IH)
  moreover have "edit1 (rev z) (rev y)" using z(2) by (rule edit1_rev)
  ultimately show ?case by (rule relpowp_Suc_I)
qed

lemma edits_sym: "(edit1 ^^ n) x y \<Longrightarrow> (edit1 ^^ n) y x"
proof (induction n arbitrary: y)
  case 0
  then show ?case by simp
next
  case (Suc n)
  from Suc.prems obtain z where z: "(edit1 ^^ n) x z" "edit1 z y"
    by (rule relpowp_Suc_E)
  have "edit1 y z" using z(2) by (rule edit1_sym)
  moreover have "(edit1 ^^ n) z x" using z(1) by (rule Suc.IH)
  ultimately show ?case by (rule relpowp_Suc_I2)
qed


subsection \<open>lev_min\<close>

lemma le_Suc_min3:
  "a \<le> Suc d \<Longrightarrow> a \<le> Suc l \<Longrightarrow> a \<le> Suc u \<Longrightarrow> a \<le> Suc (min d (min l u))"
  for a d l u :: nat
  by (simp add: min_def)

lemma lev_min_Cons_le:
  "lev_min (x # xs) (y # ys) \<le> lev_min xs ys + (if x = y then 0 else 1)"
  "lev_min (x # xs) (y # ys) \<le> Suc (lev_min (x # xs) ys)"
  "lev_min (x # xs) (y # ys) \<le> Suc (lev_min xs (y # ys))"
  by (simp_all add: min_def)

lemma lev_min_Cons_eq:
  "lev_min (x # xs) (y # ys) =
     min (lev_min xs ys + (if x = y then 0 else 1))
         (min (Suc (lev_min (x # xs) ys)) (Suc (lev_min xs (y # ys))))"
  by simp

declare lev_min.simps(3) [simp del]

lemma lev_min_Nil2 [simp]: "lev_min xs [] = length xs"
  by (cases xs) simp_all

lemma lev_min_refl [simp]: "lev_min xs xs = 0"
  by (induction xs) (simp_all add: lev_min_Cons_eq)

lemma lev_min_delete: "lev_min (x # xs) ys \<le> Suc (lev_min xs ys)"
  by (cases ys) (simp_all add: lev_min_Cons_le)

lemma lev_min_insert: "lev_min xs (y # ys) \<le> Suc (lev_min xs ys)"
  by (cases xs) (simp_all add: lev_min_Cons_le)

lemma lev_min_drop_left: "lev_min xs ys \<le> Suc (lev_min (x # xs) ys)"
proof (induction ys)
  case Nil
  show ?case by simp
next
  case (Cons y ys)
  have a: "lev_min xs (y # ys) \<le> Suc (lev_min xs ys)" by (rule lev_min_insert)
  have 1: "lev_min xs (y # ys) \<le> Suc (lev_min xs ys + (if x = y then 0 else 1))"
    using a by simp
  have 2: "lev_min xs (y # ys) \<le> Suc (Suc (lev_min (x # xs) ys))"
    using a Cons.IH by simp
  have 3: "lev_min xs (y # ys) \<le> Suc (Suc (lev_min xs (y # ys)))" by simp
  show ?case unfolding lev_min_Cons_eq[of x xs y ys] using 1 2 3 by (rule le_Suc_min3)
qed

lemma lev_min_drop_right: "lev_min xs ys \<le> Suc (lev_min xs (y # ys))"
proof (induction xs)
  case Nil
  show ?case by simp
next
  case (Cons x xs)
  have a: "lev_min (x # xs) ys \<le> Suc (lev_min xs ys)" by (rule lev_min_delete)
  have 1: "lev_min (x # xs) ys \<le> Suc (lev_min xs ys + (if x = y then 0 else 1))"
    using a by simp
  have 2: "lev_min (x # xs) ys \<le> Suc (Suc (lev_min (x # xs) ys))" by simp
  have 3: "lev_min (x # xs) ys \<le> Suc (Suc (lev_min xs (y # ys)))"
    using a Cons.IH by simp
  show ?case unfolding lev_min_Cons_eq[of x xs y ys] using 1 2 3 by (rule le_Suc_min3)
qed

lemma lev_min_same_head: "lev_min (x # xs) (x # ys) = lev_min xs ys"
  using lev_min_drop_left[of xs ys x] lev_min_drop_right[of xs ys x]
  by (simp add: lev_min_Cons_eq min_def)

lemma lev_min_diff_head:
  "x \<noteq> y \<Longrightarrow> lev_min (x # xs) (y # ys) =
     min (lev_min xs ys + 1) (min (lev_min (x # xs) ys + 1) (lev_min xs (y # ys) + 1))"
  by (simp add: lev_min_Cons_eq)

lemma lev_min_substitute: "lev_min (c # s) ys \<le> Suc (lev_min (d # s) ys)"
proof (induction ys)
  case Nil
  show ?case by simp
next
  case (Cons y ys)
  have "lev_min (c # s) (y # ys) \<le> Suc (lev_min s ys)"
    using lev_min_Cons_le(1)[of c s y ys] by (simp split: if_splits)
  then have 1: "lev_min (c # s) (y # ys) \<le> Suc (lev_min s ys + (if d = y then 0 else 1))"
    by simp
  have 2: "lev_min (c # s) (y # ys) \<le> Suc (Suc (lev_min (d # s) ys))"
    using lev_min_Cons_le(2)[of c s y ys] Cons.IH by simp
  have 3: "lev_min (c # s) (y # ys) \<le> Suc (Suc (lev_min s (y # ys)))"
    using lev_min_Cons_le(3)[of c s y ys] by simp
  show ?case unfolding lev_min_Cons_eq[of d s y ys] using 1 2 3 by (rule le_Suc_min3)
qed

lemma lev_min_Cons_mono:
  assumes "\<And>ys. lev_min x ys \<le> Suc (lev_min z ys)"
  shows "lev_min (c # x) ys \<le> Suc (lev_min (c # z) ys)"
proof (induction ys)
  case Nil
  have "length x \<le> Suc (length z)" using assms[of "[]"] by simp
  then show ?case by simp
next
  case (Cons y ys)
  have 1: "lev_min (c # x) (y # ys) \<le> Suc (lev_min z ys + (if c = y then 0 else 1))"
    using lev_min_Cons_le(1)[of c x y ys] assms[of ys] by (simp split: if_splits)
  have 2: "lev_min (c # x) (y # ys) \<le> Suc (Suc (lev_min (c # z) ys))"
    using lev_min_Cons_le(2)[of c x y ys] Cons.IH by simp
  have 3: "lev_min (c # x) (y # ys) \<le> Suc (Suc (lev_min z (y # ys)))"
    using lev_min_Cons_le(3)[of c x y ys] assms[of "y # ys"] by simp
  show ?case unfolding lev_min_Cons_eq[of c z y ys] using 1 2 3 by (rule le_Suc_min3)
qed

lemma lev_min_append_mono:
  assumes "\<And>ys. lev_min x ys \<le> Suc (lev_min z ys)"
  shows "lev_min (p @ x) ys \<le> Suc (lev_min (p @ z) ys)"
proof (induction p arbitrary: ys)
  case Nil
  show ?case using assms by simp
next
  case (Cons c p)
  show ?case using lev_min_Cons_mono[of "p @ x" "p @ z" c ys] Cons.IH by simp
qed

lemma lev_min_step: "edit1 x z \<Longrightarrow> lev_min x ys \<le> Suc (lev_min z ys)"
proof (induction arbitrary: ys rule: edit1.induct)
  case (insert_char p s c)
  show ?case by (rule lev_min_append_mono) (rule lev_min_drop_left)
next
  case (delete_char p c s)
  show ?case by (rule lev_min_append_mono) (rule lev_min_delete)
next
  case (substitute_char c d p s)
  show ?case by (rule lev_min_append_mono) (rule lev_min_substitute)
qed

lemma lev_min_lower: "(edit1 ^^ n) x y \<Longrightarrow> lev_min x y \<le> n"
proof (induction n arbitrary: x)
  case 0
  then show ?case by simp
next
  case (Suc n)
  from Suc.prems obtain z where z: "edit1 x z" "(edit1 ^^ n) z y"
    by (rule relpowp_Suc_E2)
  have "lev_min x y \<le> Suc (lev_min z y)" using z(1) by (rule lev_min_step)
  moreover have "lev_min z y \<le> n" using z(2) by (rule Suc.IH)
  ultimately show ?case by simp
qed


lemma edits_from_Nil: "(edit1 ^^ length ys) [] ys"
proof (induction ys)
  case Nil
  show ?case by simp
next
  case (Cons y ys)
  have "edit1 ([] @ ys) ([] @ y # ys)" by (rule edit1.insert_char)
  then have "edit1 ys (y # ys)" by simp
  with Cons.IH have "(edit1 ^^ Suc (length ys)) [] (y # ys)" by (rule relpowp_Suc_I)
  then show ?case by simp
qed

lemma edits_to_Nil: "(edit1 ^^ length xs) xs []"
  using edits_from_Nil[of xs] by (rule edits_sym)

lemma edit1_insert_head: "edit1 ys (y # ys)"
  using edit1.insert_char[of "[]" ys y] by simp

lemma edit1_delete_head: "edit1 (x # xs) xs"
  using edit1.delete_char[of "[]" x xs] by simp

lemma edit1_substitute_head: "x \<noteq> y \<Longrightarrow> edit1 (x # xs) (y # xs)"
  using edit1.substitute_char[of x y "[]" xs] by simp

lemma lev_min_upper: "(edit1 ^^ lev_min xs ys) xs ys"
proof (induction xs ys rule: lev_min.induct)
  case (1 ys)
  show ?case using edits_from_Nil[of ys] by simp
next
  case (2 x xs)
  show ?case using edits_to_Nil[of "x # xs"] by simp
next
  case (3 x xs y ys)
  let ?d = "lev_min xs ys + (if x = y then 0 else 1)"
  let ?l = "Suc (lev_min (x # xs) ys)"
  let ?u = "Suc (lev_min xs (y # ys))"
  have pd: "(edit1 ^^ ?d) (x # xs) (y # ys)"
  proof (cases "x = y")
    case True
    then show ?thesis using edits_Cons[OF "3.IH"(1), of x] by simp
  next
    case False
    have "edit1 (x # xs) (y # xs)" using False by (rule edit1_substitute_head)
    moreover have "(edit1 ^^ lev_min xs ys) (y # xs) (y # ys)"
      using "3.IH"(1) by (rule edits_Cons)
    ultimately have "(edit1 ^^ Suc (lev_min xs ys)) (x # xs) (y # ys)"
      by (rule relpowp_Suc_I2)
    then show ?thesis using False by simp
  qed
  have pl: "(edit1 ^^ ?l) (x # xs) (y # ys)"
    using "3.IH"(2) edit1_insert_head[of ys y] by (rule relpowp_Suc_I)
  have pu: "(edit1 ^^ ?u) (x # xs) (y # ys)"
    using edit1_delete_head[of x xs] "3.IH"(3) by (rule relpowp_Suc_I2)
  have "lev_min (x # xs) (y # ys) = ?d \<or> lev_min (x # xs) (y # ys) = ?l
        \<or> lev_min (x # xs) (y # ys) = ?u"
    unfolding lev_min_Cons_eq[of x xs y ys] by (simp only: min_def split: if_splits) simp
  then show ?case using pd pl pu by metis
qed

lemma edit_distance_lev_min: "edit_distance xs ys = lev_min xs ys"
  unfolding edit_distance_def
proof (rule Least_equality)
  show "(edit1 ^^ lev_min xs ys) xs ys" by (rule lev_min_upper)
next
  fix n assume "(edit1 ^^ n) xs ys"
  then show "lev_min xs ys \<le> n" by (rule lev_min_lower)
qed

lemma edit_distance_rev_swap: "edit_distance (rev ys) (rev xs) = edit_distance xs ys"
proof -
  have "(edit1 ^^ n) (rev ys) (rev xs) = (edit1 ^^ n) xs ys" for n
  proof
    assume "(edit1 ^^ n) (rev ys) (rev xs)"
    then have "(edit1 ^^ n) (rev (rev ys)) (rev (rev xs))" by (rule edits_rev)
    then have "(edit1 ^^ n) ys xs" by simp
    then show "(edit1 ^^ n) xs ys" by (rule edits_sym)
  next
    assume "(edit1 ^^ n) xs ys"
    then have "(edit1 ^^ n) ys xs" by (rule edits_sym)
    then show "(edit1 ^^ n) (rev ys) (rev xs)" by (rule edits_rev)
  qed
  then show ?thesis by (simp add: edit_distance_def)
qed

subsection \<open>The loops compute the recurrence\<close>

lemma dist_tab_lev_min:
  "i \<le> length b \<Longrightarrow> j \<le> length a \<Longrightarrow>
   dist_tab a b i j = lev_min (rev (take i b)) (rev (take j a))"
proof (induction a b i j rule: dist_tab.induct)
  case (1 a b j)
  then show ?case by simp
next
  case (2 a b i)
  then show ?case by simp
next
  case (3 a b i j)
  have i: "i < length b" and j: "j < length a" using "3.prems" by simp_all
  have tb: "rev (take (Suc i) b) = b ! i # rev (take i b)"
    using i by (simp add: take_Suc_conv_app_nth)
  have ta: "rev (take (Suc j) a) = a ! j # rev (take j a)"
    using j by (simp add: take_Suc_conv_app_nth)
  show ?case
  proof (cases "b ! i = a ! j")
    case True
    have "dist_tab a b i j = lev_min (rev (take i b)) (rev (take j a))"
      using "3.IH"(1)[OF True] i j by simp
    then show ?thesis using True by (simp add: tb ta lev_min_same_head)
  next
    case False
    have 1: "dist_tab a b i j = lev_min (rev (take i b)) (rev (take j a))"
      using "3.IH"(2)[OF False] i j by simp
    have 2: "dist_tab a b (Suc i) j = lev_min (b ! i # rev (take i b)) (rev (take j a))"
      using "3.IH"(3)[OF False] i j tb by simp
    have 3: "dist_tab a b i (Suc j) = lev_min (rev (take i b)) (a ! j # rev (take j a))"
      using "3.IH"(4)[OF False] i j ta by simp
    show ?thesis using False 1 2 3 by (simp add: tb ta lev_min_diff_head)
  qed
qed

lemma init_rows_eq:
  "length matrix = i \<Longrightarrow> i \<le> Suc n \<Longrightarrow>
   init_rows n i matrix = matrix @ map (\<lambda>r. [r]) [i..<Suc n]"
proof (induction n i matrix rule: init_rows.induct)
  case (1 n i matrix)
  show ?case
  proof (cases "i \<le> n")
    case True
    have "init_rows n i matrix = init_rows n (Suc i) (matrix @ [[i]])"
      using True "1.prems"(1) by (subst init_rows.simps) (simp add: array_set_def)
    also have "\<dots> = (matrix @ [[i]]) @ map (\<lambda>r. [r]) [Suc i..<Suc n]"
      using "1.IH"[OF True] True "1.prems"(1) by (simp add: array_set_def)
    also have "\<dots> = matrix @ map (\<lambda>r. [r]) [i..<Suc n]"
      using True by (simp add: upt_conv_Cons)
    finally show ?thesis .
  next
    case False
    then have "i = Suc n" using "1.prems"(2) by simp
    then show ?thesis by (subst init_rows.simps) simp
  qed
qed

lemma init_cols_eq:
  "matrix \<noteq> [] \<Longrightarrow> matrix ! 0 = [0..<j] \<Longrightarrow> j \<le> Suc n \<Longrightarrow>
   init_cols n j matrix = matrix[0 := [0..<Suc n]]"
proof (induction n j matrix rule: init_cols.induct)
  case (1 n j matrix)
  show ?case
  proof (cases "j \<le> n")
    case True
    let ?m = "matrix[0 := array_set (matrix ! 0) j j]"
    have row: "array_set (matrix ! 0) j j = [0..<Suc j]"
      using "1.prems"(2) by (simp add: array_set_def)
    have "init_cols n j matrix = init_cols n (Suc j) ?m"
      using True by (subst init_cols.simps) simp
    also have "\<dots> = ?m[0 := [0..<Suc n]]"
    proof (rule "1.IH"[OF True])
      show "?m \<noteq> []" using "1.prems"(1) by simp
      show "?m ! 0 = [0..<Suc j]" using "1.prems"(1) row by simp
      show "Suc j \<le> Suc n" using True by simp
    qed
    also have "\<dots> = matrix[0 := [0..<Suc n]]" by simp
    finally show ?thesis .
  next
    case False
    then have j: "j = Suc n" using "1.prems"(3) by simp
    have "matrix[0 := matrix ! 0] = matrix" by (rule list_update_id)
    then have "matrix[0 := [0..<Suc n]] = matrix" using "1.prems"(2) j by simp
    moreover have "init_cols n j matrix = matrix"
      using False by (subst init_cols.simps) simp
    ultimately show ?thesis by simp
  qed
qed

lemma init_cols_0:
  assumes "matrix \<noteq> []" and "matrix ! 0 = [0]"
  shows "init_cols n 0 matrix = matrix[0 := [0..<Suc n]]"
proof -
  have same: "matrix[0 := array_set (matrix ! 0) 0 0] = matrix"
    using assms by (simp add: array_set_def list_update_same_conv)
  have "init_cols n 0 matrix = init_cols n (Suc 0) matrix"
    by (subst init_cols.simps) (simp add: same)
  also have "\<dots> = matrix[0 := [0..<Suc n]]"
    using assms by (intro init_cols_eq) simp_all
  finally show ?thesis .
qed

lemma filled_lev_cell:
  assumes f: "filled a b matrix i j"
    and i: "1 \<le> i" "i \<le> length b" and j: "1 \<le> j" "j \<le> length a"
  shows "lev_cell a b matrix i j = dist_tab a b i j"
proof -
  obtain i' j' where ij: "i = Suc i'" "j = Suc j'"
    using i(1) j(1) by (cases i; cases j) simp_all
  have rows: "\<And>r. r \<le> length b \<Longrightarrow>
      length (matrix ! r) = (if r < i then Suc (length a) else if r = i then j else 1)"
    and cells: "\<And>r c. r \<le> length b \<Longrightarrow> c < length (matrix ! r) \<Longrightarrow>
      matrix ! r ! c = dist_tab a b r c"
    using f by (simp_all add: filled_def)
  have li': "length (matrix ! i') = Suc (length a)" using rows[of i'] i ij by simp
  have li: "length (matrix ! i) = j" using rows[of i] i by simp
  have d: "matrix ! i' ! j' = dist_tab a b i' j'"
    using cells[of i' j'] li' i j ij by simp
  have u: "matrix ! i' ! j = dist_tab a b i' j"
    using cells[of i' j] li' i j ij by simp
  have l: "matrix ! i ! j' = dist_tab a b i j'"
    using cells[of i j'] li i j ij by simp
  show ?thesis
    using d u l by (simp add: lev_cell_def ij)
qed

lemma filled_inner_step:
  assumes f: "filled a b matrix i j"
    and i: "1 \<le> i" "i \<le> length b" and j: "1 \<le> j" "j \<le> length a"
  shows "filled a b (matrix[i := array_set (matrix ! i) j (lev_cell a b matrix i j)]) i (Suc j)"
proof -
  let ?m = "matrix[i := array_set (matrix ! i) j (lev_cell a b matrix i j)]"
  have len: "length matrix = Suc (length b)"
    and rows: "\<And>r. r \<le> length b \<Longrightarrow>
      length (matrix ! r) = (if r < i then Suc (length a) else if r = i then j else 1)"
    and cells: "\<And>r c. r \<le> length b \<Longrightarrow> c < length (matrix ! r) \<Longrightarrow>
      matrix ! r ! c = dist_tab a b r c"
    using f by (simp_all add: filled_def)
  have li: "length (matrix ! i) = j" using rows[of i] i by simp
  have cell: "lev_cell a b matrix i j = dist_tab a b i j"
    using f i j by (rule filled_lev_cell)
  have new: "array_set (matrix ! i) j (lev_cell a b matrix i j) = matrix ! i @ [dist_tab a b i j]"
    using li cell by (simp add: array_set_def)
  have mi: "?m ! i = matrix ! i @ [dist_tab a b i j]"
    using new len i by simp
  have mr: "\<And>r. r \<noteq> i \<Longrightarrow> ?m ! r = matrix ! r" by simp
  show ?thesis
    unfolding filled_def
  proof (intro conjI allI impI)
    show "length ?m = Suc (length b)" using len by simp
  next
    fix r assume r: "r \<le> length b"
    show "length (?m ! r) = (if r < i then Suc (length a) else if r = i then Suc j else 1)"
    proof (cases "r = i")
      case True
      then show ?thesis using mi li by simp
    next
      case False
      then show ?thesis using mr[of r] rows[OF r] by simp
    qed
  next
    fix r c assume r: "r \<le> length b" and c: "c < length (?m ! r)"
    show "?m ! r ! c = dist_tab a b r c"
    proof (cases "r = i")
      case True
      show ?thesis
      proof (cases "c < j")
        case True
        then show ?thesis using \<open>r = i\<close> mi li cells[of i c] i by (simp add: nth_append)
      next
        case False
        then have "c = j" using c \<open>r = i\<close> mi li by simp
        then show ?thesis using \<open>r = i\<close> mi li by (simp add: nth_append)
      qed
    next
      case False
      then show ?thesis using mr[of r] cells[of r c] r c by simp
    qed
  qed
qed

lemma filled_inner_loop:
  "filled a b matrix i j \<Longrightarrow> 1 \<le> i \<Longrightarrow> i \<le> length b \<Longrightarrow> 1 \<le> j \<Longrightarrow> j \<le> Suc (length a)
   \<Longrightarrow> filled a b (inner_loop a b i j matrix) i (Suc (length a))"
proof (induction a b i j matrix rule: inner_loop.induct)
  case (1 a b i j matrix)
  show ?case
  proof (cases "j \<le> length a")
    case True
    let ?m = "matrix[i := array_set (matrix ! i) j (lev_cell a b matrix i j)]"
    have "filled a b ?m i (Suc j)"
      using "1.prems"(1,2,3,4) True by (rule filled_inner_step)
    then have "filled a b (inner_loop a b i (Suc j) ?m) i (Suc (length a))"
      using "1.IH"[OF True] "1.prems"(2,3) True by simp
    moreover have "inner_loop a b i j matrix = inner_loop a b i (Suc j) ?m"
      using True by (subst inner_loop.simps) simp
    ultimately show ?thesis by simp
  next
    case False
    then have "j = Suc (length a)" using "1.prems"(5) by simp
    moreover have "inner_loop a b i j matrix = matrix"
      using False by (subst inner_loop.simps) simp
    ultimately show ?thesis using "1.prems"(1) by simp
  qed
qed

lemma filled_next_row:
  assumes "filled a b matrix i (Suc (length a))"
  shows "filled a b matrix (Suc i) 1"
  using assms unfolding filled_def
  by (auto simp: less_Suc_eq)

lemma filled_outer_loop:
  "filled a b matrix i 1 \<Longrightarrow> 1 \<le> i \<Longrightarrow> i \<le> Suc (length b)
   \<Longrightarrow> filled a b (outer_loop a b i matrix) (Suc (length b)) 1"
proof (induction a b i matrix rule: outer_loop.induct)
  case (1 a b i matrix)
  show ?case
  proof (cases "i \<le> length b")
    case True
    have "filled a b (inner_loop a b i 1 matrix) i (Suc (length a))"
      using "1.prems"(1,2) True by (intro filled_inner_loop) simp_all
    then have "filled a b (inner_loop a b i 1 matrix) (Suc i) 1"
      by (rule filled_next_row)
    then have "filled a b (outer_loop a b (Suc i) (inner_loop a b i 1 matrix)) (Suc (length b)) 1"
      using "1.IH"[OF True] True by simp
    moreover have "outer_loop a b i matrix = outer_loop a b (Suc i) (inner_loop a b i 1 matrix)"
      using True by (subst outer_loop.simps) simp
    ultimately show ?thesis by simp
  next
    case False
    then have "i = Suc (length b)" using "1.prems"(3) by simp
    moreover have "outer_loop a b i matrix = matrix"
      using False by (subst outer_loop.simps) simp
    ultimately show ?thesis using "1.prems"(1) by simp
  qed
qed

lemma dist_tab_col0: "dist_tab a b r 0 = r"
  by (cases r) simp_all

lemma filled_init:
  "filled a b ((map (\<lambda>r. [r]) [0..<Suc (length b)])[0 := [0..<Suc (length a)]]) 1 1"
  unfolding filled_def
proof (intro conjI allI impI)
  let ?m = "(map (\<lambda>r. [r]) [0..<Suc (length b)])[0 := [0..<Suc (length a)]]"
  show "length ?m = Suc (length b)" by simp
  fix r assume r: "r \<le> length b"
  have row: "?m ! r = (if r = 0 then [0..<Suc (length a)] else [r])"
  proof (cases "r = 0")
    case True
    then show ?thesis by simp
  next
    case False
    then have "?m ! r = map (\<lambda>r. [r]) [0..<Suc (length b)] ! r" by simp
    also have "\<dots> = [[0..<Suc (length b)] ! r]" using r by (subst nth_map) simp_all
    also have "\<dots> = [r]" using r by (subst nth_upt) simp_all
    finally show ?thesis using False by simp
  qed
  show "length (?m ! r) = (if r < 1 then Suc (length a) else if r = 1 then 1 else 1)"
    unfolding row by simp
  fix c assume c: "c < length (?m ! r)"
  show "?m ! r ! c = dist_tab a b r c"
  proof (cases "r = 0")
    case True
    then have "c < Suc (length a)" using c unfolding row by simp
    then have "[0..<Suc (length a)] ! c = c" by (subst nth_upt) simp_all
    then show ?thesis unfolding row using True by simp
  next
    case False
    then have "c = 0" using c unfolding row by simp
    then show ?thesis unfolding row using False by (simp add: dist_tab_col0)
  qed
qed

lemma levenshteinDistance_dist_tab:
  "levenshteinDistance a b = dist_tab a b (length b) (length a)"
proof -
  let ?m0 = "init_rows (length b) 0 []"
  let ?m1 = "init_cols (length a) 0 ?m0"
  let ?m2 = "outer_loop a b 1 ?m1"
  have m0: "?m0 = map (\<lambda>r. [r]) [0..<Suc (length b)]"
    using init_rows_eq[of "[]" 0 "length b"] by simp
  have "map (\<lambda>r. [r]) [0..<Suc (length b)] ! 0 = [[0..<Suc (length b)] ! 0]"
    by (subst nth_map) simp_all
  also have "\<dots> = [0]" by (subst nth_upt) simp_all
  finally have m0_0: "?m0 ! 0 = [0]" unfolding m0 .
  have m0_ne: "?m0 \<noteq> []" unfolding m0 by simp
  have m1: "?m1 = (map (\<lambda>r. [r]) [0..<Suc (length b)])[0 := [0..<Suc (length a)]]"
    using init_cols_0[OF m0_ne m0_0, of "length a"] unfolding m0 .
  have "filled a b ?m1 1 1" unfolding m1 by (rule filled_init)
  then have "filled a b ?m2 (Suc (length b)) 1"
    by (rule filled_outer_loop) simp_all
  then have "length (?m2 ! length b) = Suc (length a)"
    and "\<And>c. c < length (?m2 ! length b) \<Longrightarrow> ?m2 ! length b ! c = dist_tab a b (length b) c"
    unfolding filled_def by simp_all
  then have "?m2 ! length b ! length a = dist_tab a b (length b) (length a)" by simp
  then show ?thesis by (simp add: levenshteinDistance_def Let_def)
qed

lemma levenshteinDistance_eq_edit_distance:
  "levenshteinDistance a b = edit_distance a b"
proof -
  have "levenshteinDistance a b = lev_min (rev b) (rev a)"
    by (simp add: levenshteinDistance_dist_tab dist_tab_lev_min)
  also have "\<dots> = edit_distance (rev b) (rev a)" by (simp add: edit_distance_lev_min)
  also have "\<dots> = edit_distance a b" by (rule edit_distance_rev_swap)
  finally show ?thesis .
qed

lemma levenshteinDistance_Nil2: "levenshteinDistance a [] = length a"
  by (simp add: levenshteinDistance_dist_tab)

lemma levenshteinDistance_Nil1: "levenshteinDistance [] b = length b"
  by (simp add: levenshteinDistance_dist_tab dist_tab_col0)

lemma levenshteinDistance_kitten: "levenshteinDistance ''kitten'' ''sitting'' = 3"
  by code_simp

subsection \<open>The claims about the tag grouping\<close>

text \<open>
  C5. \<open>groupTags\<close> on the labels Method, Methods, Result with threshold 3 returns exactly
  two groups, in this order: the group named Method with the members Method and Methods,
  then the group named Result with the single member Result.
\<close>

theorem groupTags_example:
  "groupTags [''Method'', ''Methods'', ''Result''] 3 =
     [\<lparr>name = ''Method'', tags = [''Method'', ''Methods'']\<rparr>,
      \<lparr>name = ''Result'', tags = [''Result'']\<rparr>]"
  by code_simp

text \<open>
  C7. For all strings \<open>a\<close> and \<open>b\<close>, \<open>levenshteinDistance a b\<close> is the Levenshtein edit
  distance: the least number of single-character insertions, deletions and substitutions
  that turn \<open>a\<close> into \<open>b\<close>. The distance between a string and the empty string is the
  string's length, and the distance between kitten and sitting is 3.
\<close>

theorem levenshteinDistance_correct:
  "levenshteinDistance a b = edit_distance a b
   \<and> levenshteinDistance a [] = length a
   \<and> levenshteinDistance [] b = length b
   \<and> levenshteinDistance ''kitten'' ''sitting'' = 3"
  using levenshteinDistance_eq_edit_distance [of a b] levenshteinDistance_Nil2 [of a]
    levenshteinDistance_Nil1 [of b] levenshteinDistance_kitten
  by simp

theorem levenshteinDistance_correct_witness:
  "levenshteinDistance ''kitten'' ''sitting'' = edit_distance ''kitten'' ''sitting''
   \<and> edit_distance ''kitten'' ''sitting'' = 3
   \<and> levenshteinDistance ''kitten'' [] = 6
   \<and> levenshteinDistance [] ''sitting'' = 7"
  using levenshteinDistance_correct [of "''kitten''" "''sitting''"]
  by simp

section \<open>Properties of the highlighter handlers\<close>













lemma updateDoc_unknown:
  "docId \<notin> ann_id ` set coll \<Longrightarrow> updateDoc coll docId upd = Inl NotFound"
  by (simp add: updateDoc_def)

lemma updateDoc_known:
  "docId \<in> ann_id ` set coll \<Longrightarrow>
   updateDoc coll docId upd = Inr (map (\<lambda>d. if ann_id d = docId then upd d else d) coll)"
  by (simp add: updateDoc_def)

text \<open>
  C8, as the code has it. When no stored annotation, live or soft-deleted, has the id,
  \<open>handleChangeTag\<close> is rejected with \<open>NotFound\<close> and no state is written (in edit mode
  or read-only mode it returns at once, also without a change). When a stored annotation
  has the id, the update is carried out whether or not the annotation is soft-deleted.
\<close>

theorem handleChangeTag_unknown_id:
  "(annotationId \<notin> ann_id ` set (db_annotations st) \<longrightarrow>
      handleChangeTag st annotationId newTagId now
        = (if isEditing st \<or> readOnly st then Inr st else Inl NotFound))
   \<and> (annotationId \<in> ann_id ` set (db_annotations st) \<longrightarrow>
        (\<exists>st'. handleChangeTag st annotationId newTagId now = Inr st'))"
proof (intro conjI impI)
  assume "annotationId \<notin> ann_id ` set (db_annotations st)"
  then show "handleChangeTag st annotationId newTagId now
        = (if isEditing st \<or> readOnly st then Inr st else Inl NotFound)"
    by (simp add: handleChangeTag_def updateDoc_unknown)
next
  assume "annotationId \<in> ann_id ` set (db_annotations st)"
  then show "\<exists>st'. handleChangeTag st annotationId newTagId now = Inr st'"
    by (simp add: handleChangeTag_def updateDoc_known)
qed

theorem handleChangeTag_unknown_id_witness:
  "handleChangeTag st_two ''zz'' ''tagB'' ''t6'' = Inl NotFound
   \<and> handleChangeTag (st_two\<lparr>readOnly := True\<rparr>) ''zz'' ''tagB'' ''t6''
       = Inr (st_two\<lparr>readOnly := True\<rparr>)
   \<and> (\<exists>st'. handleChangeTag st_two ''b1'' ''tagA'' ''t6'' = Inr st')"
  using handleChangeTag_unknown_id [of "''zz''" st_two "''tagB''" "''t6''"]
    handleChangeTag_unknown_id [of "''zz''" "st_two\<lparr>readOnly := True\<rparr>" "''tagB''" "''t6''"]
    handleChangeTag_unknown_id [of "''b1''" st_two "''tagA''" "''t6''"]
  by (simp add: st_two_def st_empty_def annA_def annB_def)

text \<open>
  C8 as stated fails: after \<open>handleDeleteAnnotation\<close> has soft-deleted the only
  annotation, no live annotation is left, and \<open>handleChangeTag\<close> on its id still succeeds
  and changes its tag and its update time.
\<close>

theorem handleChangeTag_soft_deleted:
  "handleDeleteAnnotation (st_empty\<lparr>db_annotations := [annA]\<rparr>) ''a1'' ''t5'' = Inr st_deleted
   \<and> liveAnnotations st_deleted = []
   \<and> handleChangeTag st_deleted ''a1'' ''tagB'' ''t6''
       = Inr (st_empty\<lparr>db_annotations :=
                [annA\<lparr>tag_id := ''tagB'', updated_at := ''t6'', deleted_at := Some ''t5''\<rparr>]\<rparr>)
   \<and> handleChangeTag st_deleted ''a1'' ''tagB'' ''t6'' \<noteq> Inl NotFound"
  by (simp add: handleDeleteAnnotation_def handleChangeTag_def updateDoc_def liveAnnotations_def
      falsy_def st_deleted_def st_empty_def annA_def)

text \<open>
  C9. A successful \<open>handleChangeTag\<close> keeps the number of stored annotations and, of the
  targeted annotation, every field but \<open>tag_id\<close> and \<open>updated_at\<close>, which it sets to the
  new tag and the current time; every other annotation is unchanged.
\<close>

theorem handleChangeTag_frame:
  assumes "handleChangeTag st annotationId newTagId now = Inr st'"
    and "k < length (db_annotations st)"
    and "d = db_annotations st ! k" and "d' = db_annotations st' ! k"
  shows "length (db_annotations st') = length (db_annotations st)
     \<and> ann_id d' = ann_id d \<and> start_index d' = start_index d \<and> end_index d' = end_index d
     \<and> text_content d' = text_content d \<and> paper_id d' = paper_id d \<and> user_id d' = user_id d
     \<and> created_at d' = created_at d \<and> deleted_at d' = deleted_at d
     \<and> (ann_id d \<noteq> annotationId \<longrightarrow> d' = d)
     \<and> (ann_id d = annotationId \<and> \<not> isEditing st \<and> \<not> readOnly st \<longrightarrow>
          tag_id d' = newTagId \<and> updated_at d' = now)"
proof (cases "isEditing st \<or> readOnly st")
  case True
  then have "st' = st" using assms(1) by (simp add: handleChangeTag_def)
  then show ?thesis using assms(3,4) True by auto
next
  case False
  have known: "annotationId \<in> ann_id ` set (db_annotations st)"
  proof (rule ccontr)
    assume "annotationId \<notin> ann_id ` set (db_annotations st)"
    then have "handleChangeTag st annotationId newTagId now = Inl NotFound"
      using False by (simp add: handleChangeTag_def updateDoc_unknown)
    then show False using assms(1) by simp
  qed
  have "db_annotations st' =
      map (\<lambda>d. if ann_id d = annotationId then d\<lparr>tag_id := newTagId, updated_at := now\<rparr> else d)
        (db_annotations st)"
    using assms(1) False known by (auto simp: handleChangeTag_def updateDoc_known)
  then have len: "length (db_annotations st') = length (db_annotations st)"
    and d': "d' = (if ann_id d = annotationId then d\<lparr>tag_id := newTagId, updated_at := now\<rparr> else d)"
    using assms(2,3,4) by simp_all
  show ?thesis using len d' by simp
qed

theorem handleChangeTag_frame_witness:
  "handleChangeTag st_two ''a1'' ''tagB'' ''t6''
     = Inr (st_two\<lparr>db_annotations := [annA\<lparr>tag_id := ''tagB'', updated_at := ''t6''\<rparr>, annB]\<rparr>)
   \<and> start_index ([annA\<lparr>tag_id := ''tagB'', updated_at := ''t6''\<rparr>, annB] ! 0) = start_index annA
   \<and> end_index ([annA\<lparr>tag_id := ''tagB'', updated_at := ''t6''\<rparr>, annB] ! 0) = end_index annA
   \<and> text_content ([annA\<lparr>tag_id := ''tagB'', updated_at := ''t6''\<rparr>, annB] ! 0) = text_content annA
   \<and> tag_id ([annA\<lparr>tag_id := ''tagB'', updated_at := ''t6''\<rparr>, annB] ! 0) = ''tagB''
   \<and> [annA\<lparr>tag_id := ''tagB'', updated_at := ''t6''\<rparr>, annB] ! 1 = annB"
proof -
  have run: "handleChangeTag st_two ''a1'' ''tagB'' ''t6''
     = Inr (st_two\<lparr>db_annotations := [annA\<lparr>tag_id := ''tagB'', updated_at := ''t6''\<rparr>, annB]\<rparr>)"
    by (simp add: handleChangeTag_def updateDoc_def st_two_def st_empty_def annA_def annB_def)
  have k0: "0 < length (db_annotations st_two)" and k1: "1 < length (db_annotations st_two)"
    by (simp_all add: st_two_def)
  show ?thesis
    using handleChangeTag_frame [OF run k0 refl refl] handleChangeTag_frame [OF run k1 refl refl] run
    by (simp add: st_two_def st_empty_def annA_def annB_def)
qed

end
